theory Spec2Isabelle
  imports Complex_Main
begin

section \<open>Slide export pipeline of \<open>src/lib/slides.ts\<close>\<close>

text \<open>
  JavaScript numbers are modelled as \<^typ>\<open>real\<close>: the finite values of the source.
  \<open>NaN\<close> and the infinities have no counterpart here. Arithmetic is exact where a
  number is only drawn or reported. The product \<open>duration * FPS\<close> is rounded to an
  integer, and there the rounding of the binary64 product decides the result: that
  product is an operation of the host.
  \<open>Math.round\<close> rounds halves towards plus infinity, as \<^const>\<open>round\<close> does
  (\<open>round x = \<lfloor>x + 1/2\<rfloor>\<close>). Strings are lists of \<^typ>\<open>char\<close>, so the code
  units of a string are those below 256.
\<close>

subsection \<open>Slides\<close>

text \<open>The union type \<open>"center" | "top" | "bottom"\<close>, capitalised.\<close>

datatype SlideAlignment = Center | Top | Bottom

text \<open>The field \<open>id\<close> of the source is \<open>slideId\<close> here.\<close>

record Slide =
  slideId :: string
  title :: string
  subtitle :: string
  backgroundColor :: string
  textColor :: string
  accentColor :: string
  duration :: real
  imageDataUrl :: "string option"
  alignment :: SlideAlignment

subsection \<open>Constants\<close>

definition FPS :: real where
  "FPS = 30"

definition CANVAS_WIDTH :: real where
  "CANVAS_WIDTH = 720"

definition CANVAS_HEIGHT :: real where
  "CANVAS_HEIGHT = 1280"

subsection \<open>Easing\<close>

definition easeInOutCubic :: "real \<Rightarrow> real" where
  "easeInOutCubic t = (if t < 0.5 then 4 * t * t * t else 1 - (- 2 * t + 2) ^ 3 / 2)"

subsection \<open>The drawing surface\<close>

text \<open>
  A decoded image and the canvas carry their pixel dimensions. A font is the weight and
  the pixel size that the source formats into the CSS font string; the family list is
  the same in both uses.
\<close>

record HTMLImageElement =
  imgWidth :: real
  imgHeight :: real

record HTMLCanvasElement =
  width :: real
  height :: real

datatype font = Font nat int

text \<open>The calls made on the 2D context, in the order they are made.\<close>

datatype canvas_op =
    Save
  | Restore
  | FillStyle string
  | FillRect real real real real
  | DrawImage HTMLImageElement real real real real
  | Translate real real
  | GlobalAlpha real
  | SetFont font
  | TextBaseline string
  | FillText string real real

subsection \<open>Image loading\<close>

datatype error = Error string | DOMException string

datatype 'a promise = Resolved 'a | Rejected error

text \<open>
  The host decodes a data URL: \<open>onload\<close> delivers the image, \<open>onerror\<close> is
  \<open>None\<close>. \<open>!dataUrl\<close> holds for an absent and for an empty string. The promise
  of \<open>loadImage\<close> is only ever resolved.
\<close>

definition loadImage :: "(string \<Rightarrow> HTMLImageElement option) \<Rightarrow> string option
    \<Rightarrow> HTMLImageElement option promise" where
  "loadImage decodeImage dataUrl =
     (case dataUrl of
        None \<Rightarrow> Resolved None
      | Some u \<Rightarrow> if u = [] then Resolved None else Resolved (decodeImage u))"

text \<open>\<open>Promise.all\<close>: the values in input order, or a rejection of one of the inputs.\<close>

fun Promise_all :: "'a promise list \<Rightarrow> 'a list promise" where
  "Promise_all [] = Resolved []"
| "Promise_all (p # ps) =
     (case p of
        Rejected e \<Rightarrow> Rejected e
      | Resolved v \<Rightarrow>
          (case Promise_all ps of
             Rejected e \<Rightarrow> Rejected e
           | Resolved vs \<Rightarrow> Resolved (v # vs)))"

definition prefetchImages :: "(string \<Rightarrow> HTMLImageElement option) \<Rightarrow> Slide list
    \<Rightarrow> HTMLImageElement option list promise" where
  "prefetchImages decodeImage slides =
     Promise_all (map (\<lambda>slide. loadImage decodeImage (imageDataUrl slide)) slides)"

subsection \<open>Text wrapping\<close>

text \<open>\<open>text.split(" ")\<close>: every single space separates; the empty string gives one empty word.\<close>

fun split_space :: "string \<Rightarrow> string list" where
  "split_space [] = [[]]"
| "split_space (c # cs) =
     (if c = CHR '' '' then [] # split_space cs
      else (case split_space cs of
              [] \<Rightarrow> [[c]]
            | w # ws \<Rightarrow> (c # w) # ws))"

text \<open>The white space and line terminators of ECMAScript among the code units below 256.\<close>

definition isWhiteSpace :: "char \<Rightarrow> bool" where
  "isWhiteSpace c = (of_char c \<in> {9, 10, 11, 12, 13, 32, 160 :: nat})"

definition trimStart :: "string \<Rightarrow> string" where
  "trimStart s = dropWhile isWhiteSpace s"

definition trimEnd :: "string \<Rightarrow> string" where
  "trimEnd s = rev (dropWhile isWhiteSpace (rev s))"

definition trim :: "string \<Rightarrow> string" where
  "trim s = trimEnd (trimStart s)"

text \<open>
  The \<open>for (const word of words)\<close> loop of \<open>renderWrappedText\<close>; the state is the
  calls made so far, \<open>line\<close> and \<open>currentY\<close>. \<open>measureWidth\<close> is the width
  that \<open>context.measureText\<close> reports under the font that is current.
\<close>

fun wrapWords :: "(string \<Rightarrow> real) \<Rightarrow> real \<Rightarrow> real \<Rightarrow> real \<Rightarrow> string list
    \<Rightarrow> canvas_op list \<times> string \<times> real \<Rightarrow> canvas_op list \<times> string \<times> real" where
  "wrapWords measureWidth x maxWidth lineHeight [] st = st"
| "wrapWords measureWidth x maxWidth lineHeight (word # words) (ops, line, currentY) =
     (let testLine = line @ word @ '' '' in
      if measureWidth testLine > maxWidth \<and> line \<noteq> [] then
        wrapWords measureWidth x maxWidth lineHeight words
          (ops @ [FillText (trimEnd line) x currentY], word @ '' '', currentY + lineHeight)
      else
        wrapWords measureWidth x maxWidth lineHeight words (ops, testLine, currentY))"

definition renderWrappedText :: "(string \<Rightarrow> real) \<Rightarrow> string \<Rightarrow> real \<Rightarrow> real \<Rightarrow> real \<Rightarrow> real
    \<Rightarrow> canvas_op list \<times> real" where
  "renderWrappedText measureWidth text x y maxWidth lineHeight =
     (let words = split_space text;
          (ops, line, currentY) = wrapWords measureWidth x maxWidth lineHeight words ([], [], y);
          ops' = (if trim line \<noteq> [] then ops @ [FillText (trimEnd line) x currentY] else ops)
      in (ops', currentY + lineHeight))"

subsection \<open>The frame compositor\<close>

text \<open>
  \<open>drawSlideFrame\<close> returns the context calls of one frame. \<open>measureText\<close> is the
  host's text measurer, by font. Where the image's height is zero the source divides by
  zero; the image rectangle is then not the one given here.
\<close>

definition drawSlideFrame :: "(font \<Rightarrow> string \<Rightarrow> real) \<Rightarrow> HTMLCanvasElement \<Rightarrow> Slide
    \<Rightarrow> HTMLImageElement option \<Rightarrow> real \<Rightarrow> canvas_op list" where
  "drawSlideFrame measureText canvas slide img frameProgress =
     (let background =
            [Save, FillStyle (backgroundColor slide), FillRect 0 0 (width canvas) (height canvas)];
          picture =
            (case img of
               None \<Rightarrow> []
             | Some im \<Rightarrow>
                 (let imageAspect = imgWidth im / imgHeight im;
                      canvasAspect = width canvas / height canvas;
                      renderHeight =
                        (if imageAspect > canvasAspect then height canvas
                         else width canvas / imageAspect);
                      renderWidth =
                        (if imageAspect > canvasAspect then imageAspect * height canvas
                         else width canvas);
                      offsetX = (width canvas - renderWidth) / 2;
                      offsetY = (height canvas - renderHeight) / 2
                  in [DrawImage im offsetX offsetY renderWidth renderHeight,
                      FillStyle ''rgba(0, 0, 0, 0.35)'',
                      FillRect 0 0 (width canvas) (height canvas)]));
          eased = easeInOutCubic (min (max frameProgress 0) 1);
          verticalPadding = height canvas * 0.12;
          textAreaWidth = width canvas * 0.85;
          accentHeight = height canvas * 0.0075;
          baseY =
            (if alignment slide = Top then verticalPadding
             else if alignment slide = Bottom then height canvas - verticalPadding * 3
             else height canvas / 2 - verticalPadding);
          translation = (1 - eased) * 60;
          accentWidth = width canvas * 0.28 * eased;
          accent =
            [Save, Translate 0 translation, GlobalAlpha (0.8 + 0.2 * eased),
             FillStyle (accentColor slide),
             FillRect (width canvas * 0.075) baseY (max accentWidth 1) accentHeight];
          titleFont = Font 700 \<lfloor>height canvas * 0.07\<rfloor>;
          currentY = baseY + accentHeight + height canvas * 0.02;
          (titleOps, currentY') =
            renderWrappedText (measureText titleFont)
              (if title slide \<noteq> [] then title slide else [])
              (width canvas * 0.075) currentY textAreaWidth (height canvas * 0.075);
          subtitleFont = Font 400 \<lfloor>height canvas * 0.035\<rfloor>;
          (subtitleOps, end) =
            renderWrappedText (measureText subtitleFont)
              (if subtitle slide \<noteq> [] then subtitle slide else [])
              (width canvas * 0.075) (currentY' + height canvas * 0.035) textAreaWidth
              (height canvas * 0.05)
      in background @ picture @ accent
         @ [FillStyle (textColor slide), SetFont titleFont, TextBaseline ''top''] @ titleOps
         @ [SetFont subtitleFont] @ subtitleOps @ [Restore, Restore])"

subsection \<open>The host\<close>

text \<open>
  What the browser answers: whether \<open>window\<close> and \<open>MediaRecorder\<close> exist, whether the
  canvas yields a 2D context, \<open>MediaRecorder.isTypeSupported\<close> (absent when it is not a
  function), the \<open>MediaRecorder\<close> constructor (which may throw), the image decoder, the
  text measurer, and whether the video track has \<open>requestFrame\<close>. A recorder reports
  the MIME type it settled on. \<open>multiply\<close> is the product of two numbers as the host
  computes it: binary64 multiplication gives the number nearest to the exact product,
  which need not be the exact product.
\<close>

record MediaRecorder =
  mimeType :: string

record Host =
  hasWindow :: bool
  hasMediaRecorder :: bool
  hasContext2d :: bool
  isTypeSupported :: "(string \<Rightarrow> bool) option"
  newMediaRecorder :: "string option \<Rightarrow> error + MediaRecorder"
  decodeImage :: "string \<Rightarrow> HTMLImageElement option"
  measureText :: "font \<Rightarrow> string \<Rightarrow> real"
  hasRequestFrame :: bool
  multiply :: "real \<Rightarrow> real \<Rightarrow> real"

definition ensureMediaRecorder :: "Host \<Rightarrow> error + unit" where
  "ensureMediaRecorder h =
     (if \<not> hasWindow h then Inl (Error ''MediaRecorder is only available on the client.'')
      else if \<not> hasMediaRecorder h then
        Inl (Error
          ''MediaRecorder is not supported in this browser. Try a recent Chromium-based browser.'')
      else Inr ())"

subsection \<open>The export run\<close>

text \<open>
  What an export does to its surroundings, in order. \<open>DrawFrame\<close> is one call of
  \<open>drawSlideFrame\<close> with the context calls it made; \<open>OnProgress\<close> is one call of the
  caller's callback.
\<close>

datatype effect =
    CreateCanvas
  | GetContext
  | CaptureStream real
  | IsTypeSupported string
  | NewMediaRecorder "string option"
  | ConsoleWarn string
  | ConsoleError
  | RecorderStart
  | RecorderStop
  | DrawFrame "canvas_op list"
  | RequestFrame
  | OnProgress real
  | Sleep real

definition mimeCandidates :: "string list" where
  "mimeCandidates = [''video/webm;codecs=vp9'', ''video/webm;codecs=vp8'', ''video/webm'']"

text \<open>The \<open>for (const mime of mimeCandidates)\<close> loop: the calls made and the recorder, if any.\<close>

fun negotiate :: "Host \<Rightarrow> string list \<Rightarrow> effect list \<times> MediaRecorder option" where
  "negotiate h [] = ([], None)"
| "negotiate h (mime # rest) =
     (let probe = (case isTypeSupported h of None \<Rightarrow> [] | Some f \<Rightarrow> [IsTypeSupported mime]);
          unsupported = (case isTypeSupported h of None \<Rightarrow> False | Some f \<Rightarrow> \<not> f mime)
      in if unsupported then
           (case negotiate h rest of (es, r) \<Rightarrow> (probe @ es, r))
         else
           (case newMediaRecorder h (Some mime) of
              Inr recorder \<Rightarrow> (probe @ [NewMediaRecorder (Some mime)], Some recorder)
            | Inl e \<Rightarrow>
                (case negotiate h rest of
                   (es, r) \<Rightarrow> (probe @ [NewMediaRecorder (Some mime), ConsoleWarn mime] @ es, r))))"

text \<open>
  The recorder of a run: the first candidate that can be constructed, else the
  constructor without a MIME type, which may throw.
\<close>

definition createRecorder :: "Host \<Rightarrow> effect list \<times> (error + MediaRecorder)" where
  "createRecorder h =
     (case negotiate h mimeCandidates of
        (es, Some recorder) \<Rightarrow> (es, Inr recorder)
      | (es, None) \<Rightarrow> (es @ [NewMediaRecorder None], newMediaRecorder h None))"

text \<open>
  \<open>Math.max(1, Math.round(slide.duration * FPS))\<close>, with the product as the host
  computes it.
\<close>

definition frameCount :: "Host \<Rightarrow> Slide \<Rightarrow> nat" where
  "frameCount h slide = nat (max 1 (round (multiply h (duration slide) FPS)))"

definition totalFrames :: "Host \<Rightarrow> Slide list \<Rightarrow> nat" where
  "totalFrames h slides = foldl (\<lambda>acc slide. acc + frameCount h slide) 0 slides"

text \<open>
  The chunks of \<open>dataavailable\<close> events are byte lists. The blob that is returned has
  the chunks and a type.
\<close>

type_synonym BlobPart = "nat list"

record Blob =
  parts :: "BlobPart list"
  blobType :: string

text \<open>
  The state of a run once the promise executor has been entered. \<open>index\<close> and
  \<open>frame\<close> are the loop variables, read when the loop next tests its conditions;
  \<open>loop\<close> says whether the asynchronous loop waits in \<open>sleep\<close>, has returned, or has
  thrown into its \<open>catch\<close>. \<open>outcome\<close> is that of \<open>exportSlidesToVideo\<close>: \<open>None\<close>
  while its promise is pending. A promise settles once: later calls of \<open>resolve\<close> and
  \<open>reject\<close> change nothing. The function continues after its \<open>await\<close> before any
  later event is handled, so it builds the blob from the chunks of that moment.
  \<open>effects\<close> is the trace of the run so far. The recorder's \<open>start\<close> and \<open>stop\<close>
  are calls that return: what the recorder does in response reaches the run as events.
\<close>

datatype loop_state = Sleeping | Finished | Threw

record Export =
  index :: nat
  frame :: nat
  capturedFrames :: nat
  loop :: loop_state
  chunks :: "BlobPart list"
  outcome :: "(error + Blob) option"
  effects :: "effect list"

definition resolve :: "MediaRecorder \<Rightarrow> Export \<Rightarrow> Export" where
  "resolve recorder st =
     (if outcome st = None then
        st\<lparr>outcome := Some (Inr \<lparr>parts = chunks st,
          blobType = (if mimeType recorder \<noteq> [] then mimeType recorder else ''video/webm'')\<rparr>)\<rparr>
      else st)"

definition reject :: "error \<Rightarrow> Export \<Rightarrow> Export" where
  "reject e st = (if outcome st = None then st\<lparr>outcome := Some (Inl e)\<rparr> else st)"

text \<open>
  The run's fixed data: the host, the recorder, the slides, the prefetched images,
  \<open>totalFrames\<close> and the optional \<open>onProgress\<close>, which returns \<open>Some e\<close> when it
  throws \<open>e\<close>. In the inner loop \<open>count\<close> is the source's \<open>frameCount\<close>.
\<close>

record Run =
  runHost :: Host
  runRecorder :: MediaRecorder
  runSlides :: "Slide list"
  runImages :: "HTMLImageElement option list"
  runTotal :: nat
  runOnProgress :: "(real \<Rightarrow> error option) option"

definition canvas :: HTMLCanvasElement where
  "canvas = \<lparr>width = CANVAS_WIDTH, height = CANVAS_HEIGHT\<rparr>"

text \<open>
  The body of the inner loop up to its \<open>await sleep\<close>, with the increment of
  \<open>frame\<close> that follows the wait. An exception of \<open>onProgress\<close> goes to the
  \<open>catch\<close> of the loop, which stops the recorder and rejects.
\<close>

definition frameBody :: "Run \<Rightarrow> Export \<Rightarrow> Export" where
  "frameBody r st =
     (let slide = runSlides r ! index st;
          img = runImages r ! index st;
          count = frameCount (runHost r) slide;
          progress = (if count = 1 then 1 else real (frame st) / real (count - 1));
          draw = [DrawFrame (drawSlideFrame (measureText (runHost r)) canvas slide img progress)];
          request = (if hasRequestFrame (runHost r) then [RequestFrame] else []);
          captured = capturedFrames st + 1;
          fraction = real captured / real (runTotal r)
      in case runOnProgress r of
           None \<Rightarrow>
             st\<lparr>effects := effects st @ draw @ request @ [Sleep (1000 / FPS)],
                capturedFrames := captured, frame := frame st + 1\<rparr>
         | Some callback \<Rightarrow>
             (case callback fraction of
                None \<Rightarrow>
                  st\<lparr>effects := effects st @ draw @ request
                       @ [OnProgress fraction, Sleep (1000 / FPS)],
                     capturedFrames := captured, frame := frame st + 1\<rparr>
              | Some e \<Rightarrow>
                  reject e
                    (st\<lparr>effects := effects st @ draw @ request
                          @ [OnProgress fraction, RecorderStop],
                        capturedFrames := captured, loop := Threw\<rparr>)))"

text \<open>
  The two \<open>for\<close> loops from the point where they test their conditions to the next
  \<open>await\<close>, or to \<open>recorder.stop()\<close> after the last slide.
\<close>

function advance :: "Run \<Rightarrow> Export \<Rightarrow> Export" where
  "advance r st =
     (if index st < length (runSlides r) then
        (if frame st < frameCount (runHost r) (runSlides r ! index st) then frameBody r st
         else advance r (st\<lparr>index := index st + 1, frame := 0\<rparr>))
      else st\<lparr>effects := effects st @ [RecorderStop], loop := Finished\<rparr>)"
  by pat_completeness auto
termination
  by (relation "measure (\<lambda>(r, st). length (runSlides r) - index st)") auto

text \<open>
  The events that reach the run: the timer of \<open>sleep\<close>, and the recorder's \<open>error\<close>,
  \<open>stop\<close> and \<open>dataavailable\<close> events. An error event may lack the \<open>error\<close>
  property (\<open>None\<close>), or carry one that is undefined (\<open>Some None\<close>) or an exception.
  \<open>dataavailable\<close> carries the data, if any.
\<close>

datatype event =
    Timer
  | ErrorEvent "error option option"
  | StopEvent
  | DataAvailable "BlobPart option"

primrec step :: "Run \<Rightarrow> Export \<Rightarrow> event \<Rightarrow> Export" where
  "step r st Timer = (if loop st = Sleeping then advance r st else st)"
| "step r st (ErrorEvent ev) =
     (case ev of
        Some (Some e) \<Rightarrow> reject e (st\<lparr>effects := effects st @ [ConsoleError]\<rparr>)
      | Some None \<Rightarrow>
          reject (Error ''MediaRecorder failed.'') (st\<lparr>effects := effects st @ [ConsoleError]\<rparr>)
      | None \<Rightarrow>
          reject (Error ''MediaRecorder failed.'') (st\<lparr>effects := effects st @ [ConsoleError]\<rparr>))"
| "step r st StopEvent = resolve (runRecorder r) st"
| "step r st (DataAvailable d) =
     (case d of
        None \<Rightarrow> st
      | Some part \<Rightarrow> if length part > 0 then st\<lparr>chunks := chunks st @ [part]\<rparr> else st)"

text \<open>
  The promise executor: the listeners are added, the recorder is started and the loop
  runs to its first \<open>await\<close>.
\<close>

definition startExport :: "Run \<Rightarrow> Export" where
  "startExport r =
     advance r \<lparr>index = 0, frame = 0, capturedFrames = 0, loop = Sleeping, chunks = [],
       outcome = None, effects = [RecorderStart]\<rparr>"

definition runExport :: "Run \<Rightarrow> event list \<Rightarrow> Export" where
  "runExport r evs = foldl (step r) (startExport r) evs"

text \<open>
  \<open>exportSlidesToVideo\<close> under a schedule of events: the effects, and the outcome
  (\<open>None\<close> when the schedule ends with the promise pending).
\<close>

definition exportSlidesToVideo :: "Host \<Rightarrow> Slide list \<Rightarrow> (real \<Rightarrow> error option) option
    \<Rightarrow> event list \<Rightarrow> effect list \<times> (error + Blob) option" where
  "exportSlidesToVideo h slides onProgress evs =
     (case ensureMediaRecorder h of
        Inl e \<Rightarrow> ([], Some (Inl e))
      | Inr _ \<Rightarrow>
          if length slides = 0 then
            ([], Some (Inl (Error ''Add at least one slide before exporting.'')))
          else if \<not> hasContext2d h then
            ([CreateCanvas, GetContext], Some (Inl (Error ''Unable to acquire canvas context.'')))
          else
            (case createRecorder h of
               (es, Inl e) \<Rightarrow> ([CreateCanvas, GetContext, CaptureStream FPS] @ es, Some (Inl e))
             | (es, Inr recorder) \<Rightarrow>
                 (case prefetchImages (decodeImage h) slides of
                    Rejected e \<Rightarrow>
                      ([CreateCanvas, GetContext, CaptureStream FPS] @ es, Some (Inl e))
                  | Resolved images \<Rightarrow>
                      (let st = runExport
                             \<lparr>runHost = h, runRecorder = recorder, runSlides = slides,
                              runImages = images, runTotal = totalFrames h slides,
                              runOnProgress = onProgress\<rparr> evs
                       in ([CreateCanvas, GetContext, CaptureStream FPS] @ es @ effects st,
                           outcome st)))))"

subsection \<open>Reading a trace\<close>

definition drawn :: "effect list \<Rightarrow> canvas_op list list" where
  "drawn es = concat (map (\<lambda>e. case e of DrawFrame ops \<Rightarrow> [ops] | _ \<Rightarrow> []) es)"

definition progressValues :: "effect list \<Rightarrow> real list" where
  "progressValues es = concat (map (\<lambda>e. case e of OnProgress p \<Rightarrow> [p] | _ \<Rightarrow> []) es)"

definition recorderStops :: "effect list \<Rightarrow> nat" where
  "recorderStops es = length (filter (\<lambda>e. e = RecorderStop) es)"

text \<open>
  The frame that the loop draws at slide \<open>i\<close> and frame \<open>f\<close>, and the frames that are
  still to be drawn when the loop tests its conditions at \<open>i\<close> and \<open>f\<close>.
\<close>

definition frameAt :: "Run \<Rightarrow> nat \<Rightarrow> nat \<Rightarrow> canvas_op list" where
  "frameAt r i f =
     drawSlideFrame (measureText (runHost r)) canvas (runSlides r ! i) (runImages r ! i)
       (if frameCount (runHost r) (runSlides r ! i) = 1 then 1
        else real f / real (frameCount (runHost r) (runSlides r ! i) - 1))"

definition framesFrom :: "Run \<Rightarrow> nat \<Rightarrow> nat \<Rightarrow> canvas_op list list" where
  "framesFrom r i f =
     (if i < length (runSlides r) then
        map (frameAt r i) [f..<frameCount (runHost r) (runSlides r ! i)]
        @ concat (map (\<lambda>j. map (frameAt r j) [0..<frameCount (runHost r) (runSlides r ! j)])
            [Suc i..<length (runSlides r)])
      else [])"

text \<open>
  What holds of every state of a run: \<open>capturedFrames\<close> counts the frames drawn, the
  frames drawn are an initial part of all frames of the run, a sleeping loop has the
  rest of them to draw and has not stopped the recorder, a loop that has returned has
  drawn them all, only a throwing callback ends the loop otherwise, and the callback
  was called once for each frame drawn, with the frame's number over \<open>totalFrames\<close>.
\<close>

definition coherent :: "Run \<Rightarrow> Export \<Rightarrow> bool" where
  "coherent r st \<longleftrightarrow>
     capturedFrames st = length (drawn (effects st))
     \<and> (\<exists>rest. drawn (effects st) @ rest = framesFrom r 0 0)
     \<and> (loop st = Sleeping \<longrightarrow>
          drawn (effects st) @ framesFrom r (index st) (frame st) = framesFrom r 0 0
          \<and> recorderStops (effects st) = 0)
     \<and> (loop st = Finished \<longrightarrow> drawn (effects st) = framesFrom r 0 0)
     \<and> (loop st = Threw \<longrightarrow> (\<exists>f p e. runOnProgress r = Some f \<and> f p = Some e))
     \<and> progressValues (effects st) =
          (case runOnProgress r of
             None \<Rightarrow> []
           | Some f \<Rightarrow> map (\<lambda>k. real k / real (runTotal r)) [1..<Suc (capturedFrames st)])"

subsection \<open>The specification's words\<close>

text \<open>The image a slide is drawn with: its decoded image, if it has one that decodes.\<close>

definition slideImage :: "Host \<Rightarrow> Slide \<Rightarrow> HTMLImageElement option" where
  "slideImage h slide =
     (case imageDataUrl slide of
        None \<Rightarrow> None
      | Some u \<Rightarrow> if u = [] then None else decodeImage h u)"

text \<open>The run of an export that gets as far as starting the recorder.\<close>

definition runOf :: "Host \<Rightarrow> MediaRecorder \<Rightarrow> Slide list \<Rightarrow> (real \<Rightarrow> error option) option \<Rightarrow> Run" where
  "runOf h rc slides cb =
     \<lparr>runHost = h, runRecorder = rc, runSlides = slides, runImages = map (slideImage h) slides,
      runTotal = totalFrames h slides, runOnProgress = cb\<rparr>"




text \<open>Words joined by single spaces.\<close>

fun joinSpace :: "string list \<Rightarrow> string" where
  "joinSpace [] = []"
| "joinSpace [w] = w"
| "joinSpace (w # ws) = w @ '' '' @ joinSpace ws"

text \<open>A callback that never throws, if there is one.\<close>

definition neverThrows :: "(real \<Rightarrow> error option) option \<Rightarrow> bool" where
  "neverThrows cb = (\<forall>p. case cb of None \<Rightarrow> True | Some f \<Rightarrow> f p = None)"

subsection \<open>Sample inputs\<close>

text \<open>\<open>defaultSlide\<close> of the source, with the identifier it draws as a parameter.\<close>

definition defaultSlide :: "string \<Rightarrow> Slide" where
  "defaultSlide ident =
     \<lparr>slideId = ident, title = ''New Scene'', subtitle = ''Tap to edit your message'',
      backgroundColor = ''#111827'', textColor = ''#f9fafb'', accentColor = ''#f97316'',
      duration = 3, imageDataUrl = None, alignment = Center\<rparr>"

text \<open>A measurer whose width is proportional to the character count.\<close>

definition monospace :: "font \<Rightarrow> string \<Rightarrow> real" where
  "monospace f s = (case f of Font weight px \<Rightarrow> real_of_int px * real (length s) / 2)"

text \<open>
  A browser that records \<open>video/webm\<close> with VP9 and decodes the data URL \<open>ok\<close> only,
  and one without \<open>MediaRecorder\<close>. Its products are the exact ones; the samples use
  it at the durations 3 and 0.1, where the binary64 products are 90 and 3 as well.
\<close>

definition browser :: Host where
  "browser =
     \<lparr>hasWindow = True, hasMediaRecorder = True, hasContext2d = True,
      isTypeSupported = Some (\<lambda>mime. mime = ''video/webm;codecs=vp9''),
      newMediaRecorder =
        (\<lambda>mime. case mime of None \<Rightarrow> Inr \<lparr>mimeType = []\<rparr> | Some m \<Rightarrow> Inr \<lparr>mimeType = m\<rparr>),
      decodeImage = (\<lambda>u. if u = ''ok'' then Some \<lparr>imgWidth = 4, imgHeight = 3\<rparr> else None),
      measureText = monospace, hasRequestFrame = True, multiply = (\<lambda>a b. a * b)\<rparr>"

text \<open>A slide of a tenth of a second, and a callback that returns.\<close>

definition shortSlide :: Slide where
  "shortSlide = (defaultSlide ''s'')\<lparr>duration := 0.1\<rparr>"

definition quiet :: "real \<Rightarrow> error option" where
  "quiet p = None"

text \<open>A callback that throws.\<close>

definition failing :: "real \<Rightarrow> error option" where
  "failing p = Some (Error ''callback'')"

text \<open>A browser that supports none of the candidates and records without a MIME type.\<close>

definition plainBrowser :: Host where
  "plainBrowser = browser\<lparr>isTypeSupported := Some (\<lambda>mime. False)\<rparr>"

text \<open>
  A browser whose product of the binary64 number nearest to 0.35 and 30 is 10.5, as
  binary64 multiplication gives; the exact product is a little less.
\<close>

definition roundingBrowser :: Host where
  "roundingBrowser =
     browser\<lparr>multiply :=
       (\<lambda>a b. if a = 3152519739159347 / 9007199254740992 \<and> b = 30 then 21 / 2 else a * b)\<rparr>"

definition oldBrowser :: Host where
  "oldBrowser = browser\<lparr>hasMediaRecorder := False\<rparr>"

section \<open>Properties\<close>

lemma cube_mono_real:
  fixes a b :: real
  assumes "a \<le> b"
  shows "a ^ 3 \<le> b ^ 3"
  using assms by (rule power_mono_odd[rotated]) simp

subsection \<open>The easing curve\<close>

lemma easeInOutCubic_mono:
  assumes "x \<le> y"
  shows "easeInOutCubic x \<le> easeInOutCubic y"
proof -
  consider (low) "y < 0.5" | (across) "x < 0.5" "0.5 \<le> y" | (high) "0.5 \<le> x"
    by linarith
  then show ?thesis
  proof cases
    case low
    then have x: "x < 0.5" using assms by linarith
    have "x ^ 3 \<le> y ^ 3" using assms by (rule cube_mono_real)
    then show ?thesis
      using low x by (simp add: easeInOutCubic_def power3_eq_cube algebra_simps)
  next
    case across
    have "x ^ 3 \<le> (1 / 2) ^ 3" using across(1) by (intro cube_mono_real) simp
    then have below: "4 * x * x * x \<le> 1 / 2"
      by (simp add: power3_eq_cube algebra_simps)
    have "(- 2 * y + 2) ^ 3 \<le> 1 ^ 3" using across(2) by (intro cube_mono_real) simp
    then have above: "1 / 2 \<le> 1 - (- 2 * y + 2) ^ 3 / 2" by simp
    show ?thesis using across below above by (simp add: easeInOutCubic_def)
  next
    case high
    then have y: "0.5 \<le> y" using assms by linarith
    have "(- 2 * y + 2) ^ 3 \<le> (- 2 * x + 2) ^ 3" using assms by (intro cube_mono_real) simp
    then show ?thesis using high y by (simp add: easeInOutCubic_def)
  qed
qed

text \<open>
  C6. The easing function takes 0 to 0, 1 to 1 and 0.5 to 0.5, and it is monotonically
  non-decreasing on the interval from 0 to 1.
\<close>

theorem easeInOutCubic_fixed_points_and_monotone:
  "easeInOutCubic 0 = 0 \<and> easeInOutCubic 1 = 1 \<and> easeInOutCubic 0.5 = 0.5
   \<and> (\<forall>x y. 0 \<le> x \<and> x \<le> y \<and> y \<le> 1 \<longrightarrow> easeInOutCubic x \<le> easeInOutCubic y)"
proof -
  have "easeInOutCubic 0 = 0" "easeInOutCubic 1 = 1" "easeInOutCubic 0.5 = 0.5"
    by (simp_all add: easeInOutCubic_def)
  then show ?thesis using easeInOutCubic_mono by blast
qed

theorem easeInOutCubic_fixed_points_and_monotone_witness:
  "(0::real) \<le> 1 / 4 \<and> (1 / 4 :: real) \<le> 3 / 4 \<and> (3 / 4 :: real) \<le> 1
   \<and> easeInOutCubic (1 / 4) \<le> easeInOutCubic (3 / 4)"
proof -
  have h: "(0::real) \<le> 1 / 4 \<and> (1 / 4 :: real) \<le> 3 / 4 \<and> (3 / 4 :: real) \<le> 1"
    by simp
  have "\<forall>x y. 0 \<le> x \<and> x \<le> y \<and> y \<le> 1 \<longrightarrow> easeInOutCubic x \<le> easeInOutCubic y"
    using easeInOutCubic_fixed_points_and_monotone by (elim conjE)
  then have "easeInOutCubic (1 / 4) \<le> easeInOutCubic (3 / 4)"
    using h by blast
  then show ?thesis using h by blast
qed

subsection \<open>The compositor\<close>

lemma drawSlideFrame_without_image:
  "\<exists>rest. drawSlideFrame m c s None t =
     [Save, FillStyle (backgroundColor s), FillRect 0 0 (width c) (height c),
      Save, Translate 0 ((1 - easeInOutCubic (min (max t 0) 1)) * 60),
      GlobalAlpha (0.8 + 0.2 * easeInOutCubic (min (max t 0) 1)),
      FillStyle (accentColor s),
      FillRect (width c * 0.075)
        (if alignment s = Top then height c * 0.12
         else if alignment s = Bottom then height c - height c * 0.12 * 3
         else height c / 2 - height c * 0.12)
        (max (width c * 0.28 * easeInOutCubic (min (max t 0) 1)) 1)
        (height c * 0.0075)] @ rest"
  by (simp only: drawSlideFrame_def Let_def case_prod_beta option.case append_Cons append_Nil)
    (rule exI, rule refl)

lemma drawSlideFrame_with_image:
  "\<exists>ox oy rw rh rest. drawSlideFrame m c s (Some im) t =
     [Save, FillStyle (backgroundColor s), FillRect 0 0 (width c) (height c),
      DrawImage im ox oy rw rh, FillStyle ''rgba(0, 0, 0, 0.35)'',
      FillRect 0 0 (width c) (height c),
      Save, Translate 0 ((1 - easeInOutCubic (min (max t 0) 1)) * 60),
      GlobalAlpha (0.8 + 0.2 * easeInOutCubic (min (max t 0) 1)),
      FillStyle (accentColor s),
      FillRect (width c * 0.075)
        (if alignment s = Top then height c * 0.12
         else if alignment s = Bottom then height c - height c * 0.12 * 3
         else height c / 2 - height c * 0.12)
        (max (width c * 0.28 * easeInOutCubic (min (max t 0) 1)) 1)
        (height c * 0.0075)] @ rest"
  by (simp only: drawSlideFrame_def Let_def case_prod_beta option.case append_Cons append_Nil)
    (intro exI, rule refl)

lemma drawSlideFrame_clamped:
  assumes "min (max t 0) 1 = min (max t' 0) 1"
  shows "drawSlideFrame m c s i t = drawSlideFrame m c s i t'"
  by (simp only: drawSlideFrame_def assms)

text \<open>
  C3, as the code has it. The accent bar is the rectangle filled right after the fill
  style is set to the accent colour: call 7 of a frame, call 10 when an image is drawn.
  It is left-aligned at 7.5% of the canvas width, at \<open>baseY\<close>, and its width is the
  larger of 1 and 28% of the canvas width scaled by the eased progress: it is never
  narrower than one pixel, so it is 1 and not 0 at an eased progress of 0.
\<close>

theorem accent_bar_drawn:
  "drawSlideFrame m c s img t ! (case img of None \<Rightarrow> 6 | Some im \<Rightarrow> 9) = FillStyle (accentColor s)
   \<and> drawSlideFrame m c s img t ! (case img of None \<Rightarrow> 7 | Some im \<Rightarrow> 10) =
       FillRect (width c * 0.075)
         (if alignment s = Top then height c * 0.12
          else if alignment s = Bottom then height c - height c * 0.12 * 3
          else height c / 2 - height c * 0.12)
         (max (width c * 0.28 * easeInOutCubic (min (max t 0) 1)) 1)
         (height c * 0.0075)"
proof (cases img)
  case None
  obtain rest where "drawSlideFrame m c s None t =
     [Save, FillStyle (backgroundColor s), FillRect 0 0 (width c) (height c),
      Save, Translate 0 ((1 - easeInOutCubic (min (max t 0) 1)) * 60),
      GlobalAlpha (0.8 + 0.2 * easeInOutCubic (min (max t 0) 1)),
      FillStyle (accentColor s),
      FillRect (width c * 0.075)
        (if alignment s = Top then height c * 0.12
         else if alignment s = Bottom then height c - height c * 0.12 * 3
         else height c / 2 - height c * 0.12)
        (max (width c * 0.28 * easeInOutCubic (min (max t 0) 1)) 1)
        (height c * 0.0075)] @ rest"
    using drawSlideFrame_without_image by blast
  then show ?thesis using None by simp
next
  case (Some im)
  obtain ox oy rw rh rest where "drawSlideFrame m c s (Some im) t =
     [Save, FillStyle (backgroundColor s), FillRect 0 0 (width c) (height c),
      DrawImage im ox oy rw rh, FillStyle ''rgba(0, 0, 0, 0.35)'',
      FillRect 0 0 (width c) (height c),
      Save, Translate 0 ((1 - easeInOutCubic (min (max t 0) 1)) * 60),
      GlobalAlpha (0.8 + 0.2 * easeInOutCubic (min (max t 0) 1)),
      FillStyle (accentColor s),
      FillRect (width c * 0.075)
        (if alignment s = Top then height c * 0.12
         else if alignment s = Bottom then height c - height c * 0.12 * 3
         else height c / 2 - height c * 0.12)
        (max (width c * 0.28 * easeInOutCubic (min (max t 0) 1)) 1)
        (height c * 0.0075)] @ rest"
    using drawSlideFrame_with_image by blast
  then show ?thesis using Some by simp
qed

theorem accent_bar_drawn_witness:
  "drawSlideFrame monospace canvas (defaultSlide ''a'') None 0 ! 7 = FillRect 54 (2432 / 5) 1 (48 / 5)
   \<and> drawSlideFrame monospace canvas (defaultSlide ''a'') None 1 ! 7
       = FillRect 54 (2432 / 5) (1008 / 5) (48 / 5)"
  using accent_bar_drawn [of monospace canvas "defaultSlide ''a''" None 0]
    accent_bar_drawn [of monospace canvas "defaultSlide ''a''" None 1]
  by (simp add: canvas_def CANVAS_WIDTH_def CANVAS_HEIGHT_def defaultSlide_def
      easeInOutCubic_def)

text \<open>
  At progress 0 on the export canvas the bar is not drawn with the width
  \<open>canvasWidth * 0.28 * eased\<close>, which is 0 there.
\<close>

theorem accent_bar_width_counterexample:
  "drawSlideFrame monospace canvas (defaultSlide ''a'') None 0 ! 7
     \<noteq> FillRect (CANVAS_WIDTH * 0.075) (CANVAS_HEIGHT / 2 - CANVAS_HEIGHT * 0.12)
         (CANVAS_WIDTH * 0.28 * easeInOutCubic 0) (CANVAS_HEIGHT * 0.0075)"
proof -
  obtain rest where "drawSlideFrame monospace canvas (defaultSlide ''a'') None 0 =
     [Save, FillStyle (backgroundColor (defaultSlide ''a'')),
      FillRect 0 0 (width canvas) (height canvas),
      Save, Translate 0 ((1 - easeInOutCubic (min (max 0 0) 1)) * 60),
      GlobalAlpha (0.8 + 0.2 * easeInOutCubic (min (max 0 0) 1)),
      FillStyle (accentColor (defaultSlide ''a'')),
      FillRect (width canvas * 0.075)
        (if alignment (defaultSlide ''a'') = Top then height canvas * 0.12
         else if alignment (defaultSlide ''a'') = Bottom
           then height canvas - height canvas * 0.12 * 3
         else height canvas / 2 - height canvas * 0.12)
        (max (width canvas * 0.28 * easeInOutCubic (min (max 0 0) 1)) 1)
        (height canvas * 0.0075)] @ rest"
    using drawSlideFrame_without_image by blast
  then show ?thesis
    by (simp add: canvas_def CANVAS_WIDTH_def CANVAS_HEIGHT_def easeInOutCubic_def)
qed

text \<open>
  C7. The compositor clamps the progress to the interval from 0 to 1 before easing: the
  frame drawn for any progress is the frame drawn for the clamped progress, so a
  progress below 0 draws the frame of 0 and a progress above 1 draws the frame of 1.
\<close>

theorem drawSlideFrame_clamps_progress:
  "drawSlideFrame m c s img t = drawSlideFrame m c s img (min (max t 0) 1)
   \<and> (t < 0 \<longrightarrow> drawSlideFrame m c s img t = drawSlideFrame m c s img 0)
   \<and> (1 < t \<longrightarrow> drawSlideFrame m c s img t = drawSlideFrame m c s img 1)"
  by (auto intro!: drawSlideFrame_clamped)

theorem drawSlideFrame_clamps_progress_witness:
  "(- 2 :: real) < 0
   \<and> drawSlideFrame monospace canvas (defaultSlide ''a'') None (- 2)
       = drawSlideFrame monospace canvas (defaultSlide ''a'') None 0
   \<and> (1 :: real) < 3
   \<and> drawSlideFrame monospace canvas (defaultSlide ''a'') (Some \<lparr>imgWidth = 4, imgHeight = 3\<rparr>) 3
       = drawSlideFrame monospace canvas (defaultSlide ''a'') (Some \<lparr>imgWidth = 4, imgHeight = 3\<rparr>) 1"
  using drawSlideFrame_clamps_progress [of monospace canvas "defaultSlide ''a''" None "- 2"]
    drawSlideFrame_clamps_progress [of monospace canvas "defaultSlide ''a''"
      "Some \<lparr>imgWidth = 4, imgHeight = 3\<rparr>" 3]
  by simp

subsection \<open>Image prefetch\<close>

lemma Promise_all_loadImage:
  "Promise_all (map (\<lambda>slide. loadImage decode (imageDataUrl slide)) slides)
   = Resolved (map (\<lambda>slide. case imageDataUrl slide of
                               None \<Rightarrow> None
                             | Some u \<Rightarrow> if u = [] then None else decode u) slides)"
  by (induction slides) (auto simp: loadImage_def split: option.splits)

lemma prefetchImages_slideImage:
  "prefetchImages (decodeImage h) slides = Resolved (map (slideImage h) slides)"
  unfolding prefetchImages_def Promise_all_loadImage slideImage_def ..

text \<open>
  C9. The prefetch never rejects: it resolves to a list as long as the slide list, whose
  entry for each slide is what that slide's own reference loads to: nothing when the
  reference is absent or empty or fails to decode, the decoded image otherwise.
\<close>

theorem prefetchImages_aligned:
  "\<exists>imgs. prefetchImages decode slides = Resolved imgs \<and> length imgs = length slides
     \<and> (\<forall>i < length slides.
          loadImage decode (imageDataUrl (slides ! i)) = Resolved (imgs ! i)
          \<and> (imageDataUrl (slides ! i) = None \<longrightarrow> imgs ! i = None)
          \<and> (\<forall>u. imageDataUrl (slides ! i) = Some u
                \<longrightarrow> imgs ! i = (if u = [] then None else decode u)))"
  unfolding prefetchImages_def Promise_all_loadImage
  by (auto simp: loadImage_def split: option.splits)

theorem prefetchImages_aligned_witness:
  "\<exists>imgs. prefetchImages (decodeImage browser)
        [(defaultSlide ''a'')\<lparr>imageDataUrl := Some ''broken''\<rparr>,
         (defaultSlide ''b'')\<lparr>imageDataUrl := Some ''ok''\<rparr>,
         defaultSlide ''c''] = Resolved imgs
     \<and> length imgs = 3 \<and> imgs ! 0 = None
     \<and> imgs ! 1 = Some \<lparr>imgWidth = 4, imgHeight = 3\<rparr> \<and> imgs ! 2 = None"
proof -
  let ?slides = "[(defaultSlide ''a'')\<lparr>imageDataUrl := Some ''broken''\<rparr>,
         (defaultSlide ''b'')\<lparr>imageDataUrl := Some ''ok''\<rparr>,
         defaultSlide ''c'']"
  obtain imgs where p: "prefetchImages (decodeImage browser) ?slides = Resolved imgs"
    and l: "length imgs = length ?slides"
    and e: "\<forall>i < length ?slides.
          loadImage (decodeImage browser) (imageDataUrl (?slides ! i)) = Resolved (imgs ! i)
          \<and> (imageDataUrl (?slides ! i) = None \<longrightarrow> imgs ! i = None)
          \<and> (\<forall>u. imageDataUrl (?slides ! i) = Some u
                \<longrightarrow> imgs ! i = (if u = [] then None else decodeImage browser u))"
    using prefetchImages_aligned [of "decodeImage browser" ?slides] by blast
  have "imgs ! 0 = None" using e [rule_format, of 0] by (simp add: browser_def)
  moreover have "imgs ! 1 = Some \<lparr>imgWidth = 4, imgHeight = 3\<rparr>"
    using e [rule_format, of 1] by (simp add: browser_def)
  moreover have "imgs ! 2 = None"
    using e [rule_format, of 2] by (simp add: defaultSlide_def)
  ultimately show ?thesis using p l by simp
qed

subsection \<open>Failures before the run\<close>

text \<open>
  C1, as the code has it. On a host that has \<open>window\<close> and \<open>MediaRecorder\<close>, the
  export of an empty slide sequence fails with the error
  \<open>Add at least one slide before exporting.\<close>, and nothing has been done by then: no
  canvas is created, no MIME type is probed, no recorder is constructed and no frame is
  drawn. The presence of \<open>MediaRecorder\<close> is tested before the slides are.
\<close>

theorem empty_export_rejected:
  "hasWindow h \<and> hasMediaRecorder h \<Longrightarrow>
   exportSlidesToVideo h [] onProgress evs
     = ([], Some (Inl (Error ''Add at least one slide before exporting.'')))"
  by (simp add: exportSlidesToVideo_def ensureMediaRecorder_def)

theorem empty_export_rejected_witness:
  "hasWindow browser \<and> hasMediaRecorder browser
   \<and> exportSlidesToVideo browser [] None [Timer, StopEvent]
       = ([], Some (Inl (Error ''Add at least one slide before exporting.'')))"
proof -
  have h: "hasWindow browser \<and> hasMediaRecorder browser" by (simp add: browser_def)
  from empty_export_rejected [OF h, of None "[Timer, StopEvent]"] h show ?thesis by blast
qed

text \<open>
  Without \<open>MediaRecorder\<close> the export of an empty slide sequence fails with the error of
  the capability test, not with the one about the slides.
\<close>

theorem empty_export_capability_counterexample:
  "snd (exportSlidesToVideo oldBrowser [] None [])
     = Some (Inl (Error
         ''MediaRecorder is not supported in this browser. Try a recent Chromium-based browser.''))
   \<and> snd (exportSlidesToVideo oldBrowser [] None [])
     \<noteq> Some (Inl (Error ''Add at least one slide before exporting.''))"
  by (simp add: exportSlidesToVideo_def ensureMediaRecorder_def oldBrowser_def browser_def)

subsection \<open>Traces\<close>

lemma drawn_Nil [simp]: "drawn [] = []"
  by (simp add: drawn_def)

lemma drawn_Cons [simp]:
  "drawn (e # es) = (case e of DrawFrame ops \<Rightarrow> [ops] | _ \<Rightarrow> []) @ drawn es"
  by (simp add: drawn_def)

lemma drawn_append [simp]: "drawn (es @ es') = drawn es @ drawn es'"
  by (simp add: drawn_def)

lemma progressValues_Nil [simp]: "progressValues [] = []"
  by (simp add: progressValues_def)

lemma progressValues_Cons [simp]:
  "progressValues (e # es) = (case e of OnProgress p \<Rightarrow> [p] | _ \<Rightarrow> []) @ progressValues es"
  by (simp add: progressValues_def)

lemma progressValues_append [simp]:
  "progressValues (es @ es') = progressValues es @ progressValues es'"
  by (simp add: progressValues_def)

lemma recorderStops_Nil [simp]: "recorderStops [] = 0"
  by (simp add: recorderStops_def)

lemma recorderStops_Cons [simp]:
  "recorderStops (e # es) = (if e = RecorderStop then 1 else 0) + recorderStops es"
  by (simp add: recorderStops_def)

lemma recorderStops_append [simp]:
  "recorderStops (es @ es') = recorderStops es + recorderStops es'"
  by (simp add: recorderStops_def)

lemma recorderStops_pos: "0 < recorderStops es \<longleftrightarrow> RecorderStop \<in> set es"
  by (induction es) auto

subsection \<open>The frames of a run\<close>

lemma frameCount_pos: "0 < frameCount h slide"
  by (simp add: frameCount_def)

lemma framesFrom_draw:
  assumes "i < length (runSlides r)" "f < frameCount (runHost r) (runSlides r ! i)"
  shows "framesFrom r i f = frameAt r i f # framesFrom r i (Suc f)"
  using assms by (simp add: framesFrom_def upt_conv_Cons)

lemma framesFrom_next:
  assumes "i < length (runSlides r)" "\<not> f < frameCount (runHost r) (runSlides r ! i)"
  shows "framesFrom r i f = framesFrom r (Suc i) 0"
  using assms by (simp add: framesFrom_def upt_conv_Cons)

lemma framesFrom_end:
  assumes "\<not> i < length (runSlides r)"
  shows "framesFrom r i f = []"
  using assms by (simp add: framesFrom_def)

declare advance.simps [simp del]

lemma reject_fields [simp]:
  "index (reject e st) = index st" "frame (reject e st) = frame st"
  "capturedFrames (reject e st) = capturedFrames st" "loop (reject e st) = loop st"
  "chunks (reject e st) = chunks st" "effects (reject e st) = effects st"
  by (simp_all add: reject_def)

lemma resolve_fields [simp]:
  "index (resolve rc st) = index st" "frame (resolve rc st) = frame st"
  "capturedFrames (resolve rc st) = capturedFrames st" "loop (resolve rc st) = loop st"
  "chunks (resolve rc st) = chunks st" "effects (resolve rc st) = effects st"
  by (simp_all add: resolve_def)

lemma frameBody_coherent:
  assumes "coherent r st" "loop st = Sleeping" "index st < length (runSlides r)"
    "frame st < frameCount (runHost r) (runSlides r ! index st)"
  shows "coherent r (frameBody r st)"
proof -
  have whole: "drawn (effects st) @ frameAt r (index st) (frame st)
      # framesFrom r (index st) (Suc (frame st)) = framesFrom r 0 0"
    using assms by (simp add: coherent_def framesFrom_draw)
  then have part: "\<exists>rest. drawn (effects st) @ frameAt r (index st) (frame st) # rest
      = framesFrom r 0 0"
    by blast
  show ?thesis
  proof (cases "runOnProgress r")
    case None
    then show ?thesis
      using assms(1,2) whole part
      unfolding frameBody_def Let_def frameAt_def [symmetric]
      by (simp add: coherent_def)
  next
    case (Some callback)
    show ?thesis
    proof (cases "callback (real (capturedFrames st + 1) / real (runTotal r))")
      case None
      then show ?thesis
        using assms(1,2) whole part Some
        unfolding frameBody_def Let_def frameAt_def [symmetric]
        by (simp add: coherent_def)
    next
      case (Some e)
      then show ?thesis
        using assms(1,2) whole part \<open>runOnProgress r = Some callback\<close>
        unfolding frameBody_def Let_def frameAt_def [symmetric]
        by (auto simp add: coherent_def)
    qed
  qed
qed

lemma advance_coherent:
  assumes "coherent r st" "loop st = Sleeping"
  shows "coherent r (advance r st)"
  using assms
proof (induction r st rule: advance.induct)
  case (1 r st)
  show ?case
  proof (cases "index st < length (runSlides r)")
    case inside: True
    show ?thesis
    proof (cases "frame st < frameCount (runHost r) (runSlides r ! index st)")
      case True
      then show ?thesis
        using inside "1.prems" by (simp add: advance.simps [of r st] frameBody_coherent)
    next
      case False
      have "coherent r (st\<lparr>index := index st + 1, frame := 0\<rparr>)"
        using "1.prems" inside False
        by (simp add: coherent_def framesFrom_next split: option.splits)
      then have "coherent r (advance r (st\<lparr>index := index st + 1, frame := 0\<rparr>))"
        using "1.IH" [OF inside False] "1.prems" by simp
      then show ?thesis using inside False by (simp add: advance.simps [of r st])
    qed
  next
    case False
    then show ?thesis
      using "1.prems"
      by (simp add: advance.simps [of r st] coherent_def framesFrom_end split: option.splits)
  qed
qed

lemma step_coherent:
  assumes "coherent r st"
  shows "coherent r (step r st ev)"
proof (cases ev)
  case Timer
  then show ?thesis using assms by (simp add: advance_coherent)
next
  case (ErrorEvent x)
  then show ?thesis using assms by (simp add: coherent_def split: option.splits)
next
  case StopEvent
  then show ?thesis using assms by (simp add: coherent_def split: option.splits)
next
  case (DataAvailable d)
  then show ?thesis using assms by (simp add: coherent_def split: option.splits)
qed

lemma foldl_step_coherent:
  "coherent r st \<Longrightarrow> coherent r (foldl (step r) st evs)"
  by (induction evs arbitrary: st) (simp_all add: step_coherent)

lemma runExport_coherent: "coherent r (runExport r evs)"
proof -
  have "coherent r \<lparr>index = 0, frame = 0, capturedFrames = 0, loop = Sleeping, chunks = [],
       outcome = None, effects = [RecorderStart]\<rparr>"
    by (simp add: coherent_def split: option.splits)
  then have "coherent r (startExport r)"
    unfolding startExport_def by (rule advance_coherent) simp
  then show ?thesis unfolding runExport_def by (rule foldl_step_coherent)
qed

subsection \<open>All frames of a run\<close>

lemma totalFrames_sum: "totalFrames h slides = sum_list (map (frameCount h) slides)"
proof -
  have "foldl (\<lambda>acc slide. acc + frameCount h slide) a slides = a + sum_list (map (frameCount h) slides)"
    for a
    by (induction slides arbitrary: a) simp_all
  then show ?thesis by (simp add: totalFrames_def)
qed

lemma framesFrom_start:
  "framesFrom r 0 0
   = concat (map (\<lambda>j. map (frameAt r j) [0..<frameCount (runHost r) (runSlides r ! j)])
       [0..<length (runSlides r)])"
proof (cases "0 < length (runSlides r)")
  case True
  then have "[0..<length (runSlides r)] = 0 # [Suc 0..<length (runSlides r)]"
    by (rule upt_conv_Cons)
  then show ?thesis using True by (simp add: framesFrom_def)
next
  case False
  then show ?thesis by (simp add: framesFrom_def)
qed

lemma length_framesFrom_start: "length (framesFrom r 0 0) = totalFrames (runHost r) (runSlides r)"
proof -
  have "length (framesFrom r 0 0)
      = sum_list (map (\<lambda>j. frameCount (runHost r) (runSlides r ! j)) [0..<length (runSlides r)])"
    by (simp add: framesFrom_start length_concat comp_def)
  also have "map (\<lambda>j. frameCount (runHost r) (runSlides r ! j)) [0..<length (runSlides r)]
      = map (frameCount (runHost r)) (runSlides r)"
    by (rule nth_equalityI) simp_all
  finally show ?thesis by (simp add: totalFrames_sum)
qed

lemma totalFrames_pos: "slides \<noteq> [] \<Longrightarrow> 0 < totalFrames h slides"
  using frameCount_pos [of h "hd slides"] by (cases slides) (simp_all add: totalFrames_sum)





subsection \<open>From the export to its run\<close>

lemma negotiate_trace:
  "drawn (fst (negotiate h ms)) = [] \<and> progressValues (fst (negotiate h ms)) = []
   \<and> recorderStops (fst (negotiate h ms)) = 0"
  by (induction ms) (auto simp: Let_def split: option.splits sum.splits prod.splits)

lemma createRecorder_trace:
  "drawn (fst (createRecorder h)) = [] \<and> progressValues (fst (createRecorder h)) = []
   \<and> recorderStops (fst (createRecorder h)) = 0"
  using negotiate_trace [of h mimeCandidates]
  by (auto simp: createRecorder_def split: prod.splits option.splits)

lemma export_cases:
  assumes "exportSlidesToVideo h slides cb evs = (es, out)"
  shows "(drawn es = [] \<and> progressValues es = [] \<and> recorderStops es = 0
          \<and> (\<exists>e. out = Some (Inl e)))
       \<or> (\<exists>pre rc. slides \<noteq> [] \<and> createRecorder h = (pre, Inr rc)
             \<and> es = [CreateCanvas, GetContext, CaptureStream FPS] @ pre
                  @ effects (runExport (runOf h rc slides cb) evs)
             \<and> out = outcome (runExport (runOf h rc slides cb) evs))"
proof (cases "ensureMediaRecorder h")
  case (Inl e)
  then have "exportSlidesToVideo h slides cb evs = ([], Some (Inl e))"
    by (simp add: exportSlidesToVideo_def)
  then show ?thesis using assms by auto
next
  case (Inr u)
  show ?thesis
  proof (cases "slides = []")
    case True
    then have "exportSlidesToVideo h slides cb evs
        = ([], Some (Inl (Error ''Add at least one slide before exporting.'')))"
      using Inr by (simp add: exportSlidesToVideo_def)
    then show ?thesis using assms by auto
  next
    case slides: False
    show ?thesis
    proof (cases "hasContext2d h")
      case False
      then have "exportSlidesToVideo h slides cb evs
          = ([CreateCanvas, GetContext], Some (Inl (Error ''Unable to acquire canvas context.'')))"
        using Inr slides by (simp add: exportSlidesToVideo_def)
      then show ?thesis using assms by auto
    next
      case True
      obtain pre x where c: "createRecorder h = (pre, x)" by (cases "createRecorder h")
      have pre: "drawn pre = []" "progressValues pre = []" "recorderStops pre = 0"
        using createRecorder_trace [of h] c by simp_all
      show ?thesis
      proof (cases x)
        case (Inl e)
        then have "exportSlidesToVideo h slides cb evs
            = ([CreateCanvas, GetContext, CaptureStream FPS] @ pre, Some (Inl e))"
          using \<open>ensureMediaRecorder h = Inr u\<close> slides True c
          by (simp add: exportSlidesToVideo_def)
        then show ?thesis using assms pre by auto
      next
        case (Inr rc)
        then have "exportSlidesToVideo h slides cb evs
            = ([CreateCanvas, GetContext, CaptureStream FPS] @ pre
                 @ effects (runExport (runOf h rc slides cb) evs),
               outcome (runExport (runOf h rc slides cb) evs))"
          using \<open>ensureMediaRecorder h = Inr u\<close> slides True c
          by (simp add: exportSlidesToVideo_def prefetchImages_slideImage runOf_def Let_def)
        then show ?thesis using assms slides c Inr by auto
      qed
    qed
  qed
qed

subsection \<open>A sample run\<close>

lemma frameCount_shortSlide: "frameCount browser shortSlide = 3"
  by (simp add: frameCount_def shortSlide_def defaultSlide_def FPS_def browser_def)

lemma createRecorder_browser:
  "createRecorder browser
   = ([IsTypeSupported ''video/webm;codecs=vp9'', NewMediaRecorder (Some ''video/webm;codecs=vp9'')],
      Inr \<lparr>mimeType = ''video/webm;codecs=vp9''\<rparr>)"
  by (simp add: createRecorder_def mimeCandidates_def browser_def)

lemma slideImage_shortSlide: "slideImage browser shortSlide = None"
  by (simp add: slideImage_def shortSlide_def defaultSlide_def)

lemma browser_fields:
  "hasWindow browser" "hasMediaRecorder browser" "hasContext2d browser"
  "measureText browser = monospace" "hasRequestFrame browser"
  by (simp_all add: browser_def)

lemma sample_run:
  "runExport (runOf browser \<lparr>mimeType = ''video/webm;codecs=vp9''\<rparr> [shortSlide] (Some quiet))
     [Timer, Timer, Timer, StopEvent]
   = \<lparr>index = 1, frame = 0, capturedFrames = 3, loop = Finished, chunks = [],
      outcome = Some (Inr \<lparr>parts = [], blobType = ''video/webm;codecs=vp9''\<rparr>),
      effects =
        [RecorderStart,
         DrawFrame (drawSlideFrame monospace canvas shortSlide None 0),
         RequestFrame, OnProgress (1 / 3), Sleep (100 / 3),
         DrawFrame (drawSlideFrame monospace canvas shortSlide None (1 / 2)),
         RequestFrame, OnProgress (2 / 3), Sleep (100 / 3),
         DrawFrame (drawSlideFrame monospace canvas shortSlide None 1),
         RequestFrame, OnProgress 1, Sleep (100 / 3),
         RecorderStop]\<rparr>"
  by (simp add: runExport_def startExport_def runOf_def advance.simps frameBody_def
      frameCount_shortSlide slideImage_shortSlide Let_def totalFrames_def resolve_def
      quiet_def FPS_def browser_fields)

lemma export_run:
  assumes "hasWindow h" "hasMediaRecorder h" "slides \<noteq> []" "hasContext2d h"
    "createRecorder h = (pre, Inr rc)"
  shows "exportSlidesToVideo h slides cb evs
     = ([CreateCanvas, GetContext, CaptureStream FPS] @ pre
          @ effects (runExport (runOf h rc slides cb) evs),
        outcome (runExport (runOf h rc slides cb) evs))"
  using assms
  by (simp add: exportSlidesToVideo_def ensureMediaRecorder_def prefetchImages_slideImage
      runOf_def Let_def)

lemma sample_export:
  "exportSlidesToVideo browser [shortSlide] (Some quiet) [Timer, Timer, Timer, StopEvent]
   = ([CreateCanvas, GetContext, CaptureStream 30,
       IsTypeSupported ''video/webm;codecs=vp9'',
       NewMediaRecorder (Some ''video/webm;codecs=vp9''),
       RecorderStart,
       DrawFrame (drawSlideFrame monospace canvas shortSlide None 0),
       RequestFrame, OnProgress (1 / 3), Sleep (100 / 3),
       DrawFrame (drawSlideFrame monospace canvas shortSlide None (1 / 2)),
       RequestFrame, OnProgress (2 / 3), Sleep (100 / 3),
       DrawFrame (drawSlideFrame monospace canvas shortSlide None 1),
       RequestFrame, OnProgress 1, Sleep (100 / 3),
       RecorderStop],
      Some (Inr \<lparr>parts = [], blobType = ''video/webm;codecs=vp9''\<rparr>))"
  by (simp add: export_run [OF browser_fields(1,2) _ browser_fields(3) createRecorder_browser]
      sample_run FPS_def)

subsection \<open>Frames and progress of a run\<close>

lemma neverThrows_not_Threw:
  assumes "coherent r st" "neverThrows (runOnProgress r)"
  shows "loop st \<noteq> Threw"
proof
  assume "loop st = Threw"
  then obtain f p e where "runOnProgress r = Some f" "f p = Some e"
    using assms(1) by (auto simp: coherent_def)
  then show False using assms(2) by (auto simp: neverThrows_def dest: spec [of _ p])
qed

lemma finished_run:
  assumes "coherent r st" "neverThrows (runOnProgress r)" "0 < recorderStops (effects st)"
  shows "drawn (effects st) = framesFrom r 0 0"
proof (cases "loop st")
  case Sleeping
  then show ?thesis using assms(1,3) by (simp add: coherent_def)
next
  case Finished
  then show ?thesis using assms(1) by (simp add: coherent_def)
next
  case Threw
  then show ?thesis using neverThrows_not_Threw [OF assms(1,2)] by simp
qed

lemma sorted_fractions: "sorted (map (\<lambda>k. real k / real t) [1..<Suc n])"
  by (auto simp: sorted_iff_nth_mono divide_right_mono simp del: upt_Suc)

lemma last_fractions:
  assumes "0 < t"
  shows "last (map (\<lambda>k. real k / real t) [1..<Suc t]) = 1"
  using assms by (simp add: last_map)

text \<open>
  Where the binary64 product is not the exact one the two can round apart: on
  \<open>roundingBrowser\<close> the slide whose duration is the binary64 number nearest to 0.35 has
  11 frames, as in the source, where the exact product rounds to 10. The product 10.5 is
  within half a unit in the last place (\<open>2 ^ -50\<close>) of the exact one.
\<close>

lemma frameCount_rounded_product:
  "frameCount roundingBrowser (slide\<lparr>duration := 3152519739159347 / 9007199254740992\<rparr>) = 11
   \<and> max 1 (round ((3152519739159347 / 9007199254740992 :: real) * 30)) = (10 :: int)
   \<and> \<bar>21 / 2 - (3152519739159347 / 9007199254740992 :: real) * 30\<bar> < 1 / 2 ^ 50"
  by (simp add: frameCount_def roundingBrowser_def browser_def FPS_def round_def)



text \<open>
  C5. With a callback, the values passed to \<open>onProgress\<close> are non-decreasing and there is
  one for each frame drawn: they are the numbers of the frames over \<open>totalFrames\<close>. When
  the callback never throws and the loop has reached \<open>recorder.stop()\<close>, there is at
  least one value and the last is exactly 1.
\<close>

theorem progress_nondecreasing_ends_at_one:
  assumes "exportSlidesToVideo h slides (Some f) evs = (es, out)"
  shows "sorted (progressValues es)
     \<and> length (progressValues es) = length (drawn es)
     \<and> progressValues es
         = map (\<lambda>k. real k / real (totalFrames h slides)) [1..<Suc (length (drawn es))]
     \<and> (neverThrows (Some f) \<and> RecorderStop \<in> set es
          \<longrightarrow> progressValues es \<noteq> [] \<and> last (progressValues es) = 1)"
proof -
  from export_cases [OF assms] show ?thesis
  proof
    assume "drawn es = [] \<and> progressValues es = [] \<and> recorderStops es = 0
      \<and> (\<exists>e. out = Some (Inl e))"
    then show ?thesis using recorderStops_pos [of es] by simp
  next
    assume "\<exists>pre rc. slides \<noteq> [] \<and> createRecorder h = (pre, Inr rc)
      \<and> es = [CreateCanvas, GetContext, CaptureStream FPS] @ pre
           @ effects (runExport (runOf h rc slides (Some f)) evs)
      \<and> out = outcome (runExport (runOf h rc slides (Some f)) evs)"
    then obtain pre rc where c: "createRecorder h = (pre, Inr rc)"
      and slides: "slides \<noteq> []"
      and es: "es = [CreateCanvas, GetContext, CaptureStream FPS] @ pre
           @ effects (runExport (runOf h rc slides (Some f)) evs)"
      by blast
    let ?r = "runOf h rc slides (Some f)"
    let ?st = "runExport ?r evs"
    have pre: "drawn pre = []" "progressValues pre = []" "recorderStops pre = 0"
      using createRecorder_trace [of h] c by simp_all
    have d: "drawn es = drawn (effects ?st)" using es pre by simp
    have p: "progressValues es = progressValues (effects ?st)" using es pre by simp
    have s: "recorderStops es = recorderStops (effects ?st)" using es pre by simp
    have coh: "coherent ?r ?st" by (rule runExport_coherent)
    have vals: "progressValues es
        = map (\<lambda>k. real k / real (totalFrames h slides)) [1..<Suc (length (drawn es))]"
      using coh unfolding p d by (simp add: coherent_def runOf_def)
    have sorted: "sorted (progressValues es)"
      unfolding vals by (rule sorted_fractions)
    have len: "length (progressValues es) = length (drawn es)"
      by (subst vals) (simp del: upt_Suc)
    have "progressValues es \<noteq> [] \<and> last (progressValues es) = 1"
      if "neverThrows (Some f)" "RecorderStop \<in> set es"
    proof -
      have "0 < recorderStops (effects ?st)" using that(2) s recorderStops_pos [of es] by simp
      moreover have "neverThrows (runOnProgress ?r)" using that(1) by (simp add: runOf_def)
      ultimately have "drawn (effects ?st) = framesFrom ?r 0 0"
        using finished_run [OF coh] by simp
      then have "length (drawn es) = totalFrames h slides"
        using d length_framesFrom_start [of ?r] by (simp add: runOf_def)
      moreover have "0 < totalFrames h slides" using slides by (rule totalFrames_pos)
      ultimately show ?thesis
        using vals last_fractions [of "totalFrames h slides"] by (simp del: upt_Suc)
    qed
    then show ?thesis using sorted len vals by blast
  qed
qed

theorem progress_nondecreasing_ends_at_one_witness:
  "neverThrows (Some quiet)
   \<and> RecorderStop \<in> set (fst (exportSlidesToVideo browser [shortSlide] (Some quiet)
        [Timer, Timer, Timer, StopEvent]))
   \<and> snd (exportSlidesToVideo browser [shortSlide] (Some quiet) [Timer, Timer, Timer, StopEvent])
       = Some (Inr \<lparr>parts = [], blobType = ''video/webm;codecs=vp9''\<rparr>)
   \<and> progressValues (fst (exportSlidesToVideo browser [shortSlide] (Some quiet)
        [Timer, Timer, Timer, StopEvent])) = [1 / 3, 2 / 3, 1]
   \<and> sorted (progressValues (fst (exportSlidesToVideo browser [shortSlide] (Some quiet)
        [Timer, Timer, Timer, StopEvent])))
   \<and> last (progressValues (fst (exportSlidesToVideo browser [shortSlide] (Some quiet)
        [Timer, Timer, Timer, StopEvent]))) = 1"
proof -
  let ?e = "exportSlidesToVideo browser [shortSlide] (Some quiet) [Timer, Timer, Timer, StopEvent]"
  have e: "?e = (fst ?e, snd ?e)" by simp
  have q: "neverThrows (Some quiet)" by (simp add: neverThrows_def quiet_def)
  have s: "RecorderStop \<in> set (fst ?e)" by (simp add: sample_export)
  have "sorted (progressValues (fst ?e)) \<and> last (progressValues (fst ?e)) = 1"
    using progress_nondecreasing_ends_at_one [OF e] q s by blast
  moreover have "progressValues (fst ?e) = [1 / 3, 2 / 3, 1]" by (simp add: sample_export)
  moreover have "snd ?e = Some (Inr \<lparr>parts = [], blobType = ''video/webm;codecs=vp9''\<rparr>)"
    by (simp add: sample_export)
  ultimately show ?thesis using q s by blast
qed

subsection \<open>Text wrapping\<close>

lemma split_space_not_Nil: "split_space s \<noteq> []"
  by (induction s) (auto split: list.splits)

lemma split_space_single: "CHR '' '' \<notin> set w \<Longrightarrow> split_space w = [w]"
  by (induction w) auto

lemma split_space_word:
  "CHR '' '' \<notin> set w \<Longrightarrow> split_space (w @ CHR '' '' # s) = w # split_space s"
  by (induction w) auto

lemma split_space_joinSpace:
  assumes "ws \<noteq> []" "\<forall>w \<in> set ws. CHR '' '' \<notin> set w"
  shows "split_space (joinSpace ws) = ws"
  using assms
proof (induction ws rule: joinSpace.induct)
  case 1
  then show ?case by simp
next
  case (2 w)
  then show ?case by (simp add: split_space_single)
next
  case (3 w v ws)
  then show ?case by (simp add: split_space_word)
qed

lemma trimEnd_space: "trimEnd (w @ '' '') = trimEnd w"
  by (simp add: trimEnd_def isWhiteSpace_def)

lemma trimEnd_Nil_iff: "trimEnd s = [] \<longleftrightarrow> (\<forall>c \<in> set s. isWhiteSpace c)"
  by (simp add: trimEnd_def dropWhile_eq_Nil_conv)

lemma trim_Nil_iff: "trim s = [] \<longleftrightarrow> (\<forall>c \<in> set s. isWhiteSpace c)"
proof
  assume "trim s = []"
  then have all: "\<forall>c \<in> set (dropWhile isWhiteSpace s). isWhiteSpace c"
    by (simp add: trim_def trimStart_def trimEnd_Nil_iff)
  show "\<forall>c \<in> set s. isWhiteSpace c"
  proof (rule ccontr)
    assume "\<not> (\<forall>c \<in> set s. isWhiteSpace c)"
    then have ne: "dropWhile isWhiteSpace s \<noteq> []" by (simp add: dropWhile_eq_Nil_conv)
    then have "\<not> isWhiteSpace (hd (dropWhile isWhiteSpace s))" by (rule hd_dropWhile)
    moreover have "hd (dropWhile isWhiteSpace s) \<in> set (dropWhile isWhiteSpace s)"
      using ne by simp
    ultimately show False using all by blast
  qed
next
  assume "\<forall>c \<in> set s. isWhiteSpace c"
  then show "trim s = []"
    by (auto simp: trim_def trimStart_def trimEnd_def dest: set_dropWhileD)
qed

lemma trim_space: "trim (w @ '' '') = [] \<longleftrightarrow> trim w = []"
  by (simp add: trim_Nil_iff isWhiteSpace_def)

lemma wrapWords_words:
  assumes "\<forall>s. measureWidth s = k * real (length s)" "0 \<le> k"
    "\<forall>w \<in> set ws. maxWidth / 2 < measureWidth w" "maxWidth / 2 < measureWidth p"
  shows "wrapWords measureWidth x maxWidth lineHeight ws (ops, p @ '' '', cy)
     = (ops @ map (\<lambda>i. FillText (trimEnd ((p # ws) ! i)) x (cy + real i * lineHeight))
               [0..<length ws],
        last (p # ws) @ '' '', cy + real (length ws) * lineHeight)"
  using assms(3,4)
proof (induction ws arbitrary: ops p cy)
  case Nil
  then show ?case by simp
next
  case (Cons w ws)
  have "k * real (length p) + k * real (length w) + 2 * k > maxWidth"
    using Cons.prems assms(1,2) by simp
  then have wide: "measureWidth ((p @ '' '') @ w @ '' '') > maxWidth"
    using assms(1) by (simp add: algebra_simps)
  have step: "wrapWords measureWidth x maxWidth lineHeight (w # ws) (ops, p @ '' '', cy)
      = wrapWords measureWidth x maxWidth lineHeight ws
          (ops @ [FillText (trimEnd p) x cy], w @ '' '', cy + lineHeight)"
    using wide by (simp add: trimEnd_space Let_def del: append_assoc)
  have rest: "wrapWords measureWidth x maxWidth lineHeight ws
          (ops @ [FillText (trimEnd p) x cy], w @ '' '', cy + lineHeight)
      = ((ops @ [FillText (trimEnd p) x cy])
           @ map (\<lambda>i. FillText (trimEnd ((w # ws) ! i)) x (cy + lineHeight + real i * lineHeight))
               [0..<length ws],
         last (w # ws) @ '' '', cy + lineHeight + real (length ws) * lineHeight)"
    using Cons.prems by (intro Cons.IH) simp_all
  have lines: "map (\<lambda>i. FillText (trimEnd ((p # w # ws) ! i)) x (cy + real i * lineHeight))
        [0..<length (w # ws)]
      = FillText (trimEnd p) x cy
        # map (\<lambda>i. FillText (trimEnd ((w # ws) ! i)) x (cy + lineHeight + real i * lineHeight))
            [0..<length ws]"
    by (simp add: upt_conv_Cons map_Suc_upt [symmetric] algebra_simps del: upt_Suc)
  show ?case unfolding step rest lines by (simp add: algebra_simps)
qed

lemma renderWrappedText_empty:
  "renderWrappedText measureWidth [] x y maxWidth lineHeight = ([], y + lineHeight)"
  by (simp add: renderWrappedText_def trim_def trimStart_def trimEnd_def isWhiteSpace_def)

text \<open>
  C8. With a measurer whose width is the character count times a factor that is not
  negative, a text of \<open>N\<close> words joined by single spaces, each word without a space,
  not blank, and wider than half the maximum width, is committed as \<open>N\<close> lines, word
  \<open>i\<close> (trailing white space removed) at \<open>y + i * lineHeight\<close>, and the cursor returned
  is \<open>y + N * lineHeight\<close>. The empty text commits no line and returns
  \<open>y + lineHeight\<close>.
\<close>

theorem renderWrappedText_one_word_per_line:
  assumes "\<forall>s. measureWidth s = k * real (length s)" "0 \<le> k"
    and "ws \<noteq> []"
    and "\<forall>w \<in> set ws. CHR '' '' \<notin> set w \<and> trim w \<noteq> [] \<and> maxWidth / 2 < measureWidth w"
  shows "renderWrappedText measureWidth (joinSpace ws) x y maxWidth lineHeight
       = (map (\<lambda>i. FillText (trimEnd (ws ! i)) x (y + real i * lineHeight)) [0..<length ws],
          y + real (length ws) * lineHeight)
     \<and> renderWrappedText measureWidth [] x y maxWidth lineHeight = ([], y + lineHeight)"
proof -
  obtain p vs where ws: "ws = p # vs" using assms(3) by (cases ws) auto
  have words: "split_space (joinSpace ws) = ws"
    using assms(3,4) by (intro split_space_joinSpace) auto
  have first: "wrapWords measureWidth x maxWidth lineHeight ws ([], [], y)
      = wrapWords measureWidth x maxWidth lineHeight vs ([], p @ '' '', y)"
    by (simp add: ws)
  have loop: "wrapWords measureWidth x maxWidth lineHeight vs ([], p @ '' '', y)
      = ([] @ map (\<lambda>i. FillText (trimEnd ((p # vs) ! i)) x (y + real i * lineHeight))
                [0..<length vs],
         last (p # vs) @ '' '', y + real (length vs) * lineHeight)"
    using assms(4) by (intro wrapWords_words [OF assms(1,2)]) (simp_all add: ws)
  have blank: "trim (last ws @ '' '') \<noteq> []"
    using assms(3,4) by (simp add: trim_space)
  have lines: "map (\<lambda>i. FillText (trimEnd (ws ! i)) x (y + real i * lineHeight)) [0..<length ws]
      = map (\<lambda>i. FillText (trimEnd (ws ! i)) x (y + real i * lineHeight)) [0..<length vs]
        @ [FillText (trimEnd (last ws)) x (y + real (length vs) * lineHeight)]"
    using last_conv_nth [of ws] by (simp add: ws)
  have "renderWrappedText measureWidth (joinSpace ws) x y maxWidth lineHeight
       = (map (\<lambda>i. FillText (trimEnd (ws ! i)) x (y + real i * lineHeight)) [0..<length ws],
          y + real (length ws) * lineHeight)"
    unfolding renderWrappedText_def Let_def words first loop lines
    using blank by (simp add: ws trimEnd_space algebra_simps)
  then show ?thesis using renderWrappedText_empty by blast
qed

theorem renderWrappedText_one_word_per_line_witness:
  "renderWrappedText (monospace (Font 700 2)) ''hello world again'' 54 100 8 10
     = ([FillText ''hello'' 54 100, FillText ''world'' 54 110, FillText ''again'' 54 120], 130)
   \<and> renderWrappedText (monospace (Font 700 2)) [] 54 100 8 10 = ([], 110)"
proof -
  have m: "\<forall>s. monospace (Font 700 2) s = 1 * real (length s)"
    by (simp add: monospace_def)
  have k: "(0::real) \<le> 1" by simp
  have n: "[''hello'', ''world'', ''again''] \<noteq> []" by simp
  have w: "\<forall>w \<in> set [''hello'', ''world'', ''again''].
      CHR '' '' \<notin> set w \<and> trim w \<noteq> [] \<and> 8 / 2 < monospace (Font 700 2) w"
    by (simp add: monospace_def trim_def trimStart_def trimEnd_def isWhiteSpace_def)
  show ?thesis
    using renderWrappedText_one_word_per_line [OF m k n w, of 54 100 10]
    by (simp add: trimEnd_def isWhiteSpace_def upt_conv_Cons)
qed

subsection \<open>Error events\<close>

lemma error_event_effects: "effects (step r st (ErrorEvent x)) = effects st @ [ConsoleError]"
  by (simp split: option.splits)

lemma error_event_outcome:
  "outcome st = None \<Longrightarrow> \<exists>e. outcome (step r st (ErrorEvent x)) = Some (Inl e)"
  by (simp add: reject_def split: option.splits)

lemma sample_run_error:
  "runExport (runOf browser \<lparr>mimeType = ''video/webm;codecs=vp9''\<rparr> [shortSlide] (Some quiet))
     [ErrorEvent (Some None), Timer, Timer]
   = \<lparr>index = 0, frame = 3, capturedFrames = 3, loop = Sleeping, chunks = [],
      outcome = Some (Inl (Error ''MediaRecorder failed.'')),
      effects =
        [RecorderStart,
         DrawFrame (drawSlideFrame monospace canvas shortSlide None 0),
         RequestFrame, OnProgress (1 / 3), Sleep (100 / 3),
         ConsoleError,
         DrawFrame (drawSlideFrame monospace canvas shortSlide None (1 / 2)),
         RequestFrame, OnProgress (2 / 3), Sleep (100 / 3),
         DrawFrame (drawSlideFrame monospace canvas shortSlide None 1),
         RequestFrame, OnProgress 1, Sleep (100 / 3)]\<rparr>"
  by (simp add: runExport_def startExport_def runOf_def advance.simps frameBody_def
      frameCount_shortSlide slideImage_shortSlide Let_def totalFrames_def reject_def
      quiet_def FPS_def browser_fields)

lemma sample_run_throw:
  "runExport (runOf browser \<lparr>mimeType = ''video/webm;codecs=vp9''\<rparr> [shortSlide] (Some failing))
     []
   = \<lparr>index = 0, frame = 0, capturedFrames = 1, loop = Threw, chunks = [],
      outcome = Some (Inl (Error ''callback'')),
      effects =
        [RecorderStart,
         DrawFrame (drawSlideFrame monospace canvas shortSlide None 0),
         RequestFrame, OnProgress (1 / 3), RecorderStop]\<rparr>"
  by (simp add: runExport_def startExport_def runOf_def advance.simps frameBody_def
      frameCount_shortSlide slideImage_shortSlide Let_def totalFrames_def reject_def
      failing_def FPS_def browser_fields)

text \<open>
  C4, at a run of one slide of three frames whose recorder reports an error event while
  the loop sleeps after the first frame. The export is rejected with
  \<open>MediaRecorder failed.\<close>, but the handler does not stop the recorder: two timer events
  later the loop has drawn the two remaining frames and the recorder has still not been
  stopped. The loop's own \<open>catch\<close> does stop it: when the callback throws, the recorder
  is stopped once and the export is rejected with what was thrown.
\<close>

theorem error_event_leaves_recorder_running:
  "snd (exportSlidesToVideo browser [shortSlide] (Some quiet) [ErrorEvent (Some None), Timer, Timer])
     = Some (Inl (Error ''MediaRecorder failed.''))
   \<and> RecorderStart \<in> set (fst (exportSlidesToVideo browser [shortSlide] (Some quiet)
        [ErrorEvent (Some None), Timer, Timer]))
   \<and> recorderStops (fst (exportSlidesToVideo browser [shortSlide] (Some quiet)
        [ErrorEvent (Some None), Timer, Timer])) = 0
   \<and> length (drawn (fst (exportSlidesToVideo browser [shortSlide] (Some quiet)
        [ErrorEvent (Some None), Timer, Timer]))) = 3
   \<and> snd (exportSlidesToVideo browser [shortSlide] (Some failing) [])
     = Some (Inl (Error ''callback''))
   \<and> recorderStops (fst (exportSlidesToVideo browser [shortSlide] (Some failing) [])) = 1"
  by (simp add: export_run [OF browser_fields(1,2) _ browser_fields(3) createRecorder_browser]
      sample_run_error sample_run_throw)

subsection \<open>A run that is left alone completes\<close>

lemma frameBody_returns:
  assumes "neverThrows (runOnProgress r)"
  shows "loop (frameBody r st) = loop st
     \<and> capturedFrames (frameBody r st) = capturedFrames st + 1
     \<and> outcome (frameBody r st) = outcome st
     \<and> chunks (frameBody r st) = chunks st
     \<and> recorderStops (effects (frameBody r st)) = recorderStops (effects st)"
proof (cases "runOnProgress r")
  case None
  then show ?thesis by (simp add: frameBody_def Let_def)
next
  case (Some callback)
  then have "callback p = None" for p
    using assms by (auto simp: neverThrows_def dest: spec [of _ p])
  then show ?thesis using Some by (simp add: frameBody_def Let_def)
qed

lemma advance_draws_or_finishes:
  assumes "neverThrows (runOnProgress r)"
  shows "outcome (advance r st) = outcome st \<and> chunks (advance r st) = chunks st
     \<and> ((loop (advance r st) = loop st
          \<and> capturedFrames (advance r st) = capturedFrames st + 1
          \<and> recorderStops (effects (advance r st)) = recorderStops (effects st))
        \<or> (loop (advance r st) = Finished
          \<and> capturedFrames (advance r st) = capturedFrames st
          \<and> recorderStops (effects (advance r st)) = recorderStops (effects st) + 1))"
  using assms
proof (induction r st rule: advance.induct)
  case (1 r st)
  show ?case
  proof (cases "index st < length (runSlides r)")
    case inside: True
    show ?thesis
    proof (cases "frame st < frameCount (runHost r) (runSlides r ! index st)")
      case True
      then have "advance r st = frameBody r st" using inside by (simp add: advance.simps [of r st])
      then show ?thesis using frameBody_returns [OF "1.prems", of st] by simp
    next
      case False
      then have "advance r st = advance r (st\<lparr>index := index st + 1, frame := 0\<rparr>)"
        using inside by (simp add: advance.simps [of r st])
      then show ?thesis using "1.IH" [OF inside False "1.prems"] by simp
    qed
  next
    case False
    then show ?thesis by (simp add: advance.simps [of r st])
  qed
qed

lemma coherent_captured_le:
  assumes "coherent r st"
  shows "capturedFrames st \<le> totalFrames (runHost r) (runSlides r)"
proof -
  obtain rest where "drawn (effects st) @ rest = framesFrom r 0 0"
    using assms by (auto simp: coherent_def)
  then have "length (drawn (effects st)) + length rest = totalFrames (runHost r) (runSlides r)"
    using length_framesFrom_start [of r] by (metis length_append)
  then show ?thesis using assms by (simp add: coherent_def)
qed

lemma coherent_finished_captured:
  assumes "coherent r st" "loop st = Finished"
  shows "capturedFrames st = totalFrames (runHost r) (runSlides r)"
  using assms length_framesFrom_start [of r] by (simp add: coherent_def)

lemma timers_finish:
  assumes "neverThrows (runOnProgress r)"
    "coherent r st" "loop st = Sleeping" "capturedFrames st + k = totalFrames (runHost r) (runSlides r)"
  shows "loop (foldl (step r) st (replicate (Suc k) Timer)) = Finished
     \<and> outcome (foldl (step r) st (replicate (Suc k) Timer)) = outcome st
     \<and> chunks (foldl (step r) st (replicate (Suc k) Timer)) = chunks st
     \<and> recorderStops (effects (foldl (step r) st (replicate (Suc k) Timer)))
         = recorderStops (effects st) + 1"
  using assms(2-4)
proof (induction k arbitrary: st)
  case 0
  let ?st' = "advance r st"
  have coh: "coherent r ?st'" using "0.prems"(1,2) by (rule advance_coherent)
  have "capturedFrames ?st' \<noteq> capturedFrames st + 1"
    using coherent_captured_le [OF coh] "0.prems"(3) by simp
  then show ?case
    using advance_draws_or_finishes [OF assms(1), of st] "0.prems"(2) by auto
next
  case (Suc k)
  let ?st' = "advance r st"
  have coh: "coherent r ?st'" using Suc.prems(1,2) by (rule advance_coherent)
  have "loop ?st' \<noteq> Finished \<or> capturedFrames ?st' \<noteq> capturedFrames st"
    using coherent_finished_captured [OF coh] Suc.prems(3) by auto
  then have next_state: "loop ?st' = Sleeping" "capturedFrames ?st' = capturedFrames st + 1"
      "outcome ?st' = outcome st" "chunks ?st' = chunks st"
      "recorderStops (effects ?st') = recorderStops (effects st)"
    using advance_draws_or_finishes [OF assms(1), of st] Suc.prems(2) by auto
  have "capturedFrames ?st' + k = totalFrames (runHost r) (runSlides r)"
    using next_state(2) Suc.prems(3) by simp
  from Suc.IH [OF coh next_state(1) this] next_state(3,4,5)
  show ?case using Suc.prems(2) by simp
qed

lemma runExport_completes:
  assumes "neverThrows (runOnProgress r)"
  shows "loop (runExport r (replicate (totalFrames (runHost r) (runSlides r)) Timer)) = Finished
     \<and> outcome (runExport r (replicate (totalFrames (runHost r) (runSlides r)) Timer)) = None
     \<and> recorderStops (effects (runExport r (replicate (totalFrames (runHost r) (runSlides r)) Timer))) = 1"
proof -
  let ?init = "\<lparr>index = 0, frame = 0, capturedFrames = 0, loop = Sleeping, chunks = [],
       outcome = None, effects = [RecorderStart]\<rparr>"
  have coh: "coherent r ?init" by (simp add: coherent_def split: option.splits)
  have run: "runExport r evs = foldl (step r) ?init (Timer # evs)" for evs
    by (simp add: runExport_def startExport_def)
  from timers_finish [OF assms coh, of "totalFrames (runHost r) (runSlides r)"]
  show ?thesis unfolding run by simp
qed

lemma export_completes:
  assumes "hasWindow h" "hasMediaRecorder h" "slides \<noteq> []" "hasContext2d h"
    "createRecorder h = (pre, Inr rc)" "neverThrows cb"
  shows "\<exists>es blob. exportSlidesToVideo h slides cb (replicate (totalFrames h slides) Timer @ [StopEvent])
       = (es, Some (Inr blob)) \<and> RecorderStop \<in> set es"
proof -
  let ?r = "runOf h rc slides cb"
  let ?st = "runExport ?r (replicate (totalFrames h slides) Timer)"
  have r: "neverThrows (runOnProgress ?r)" "runSlides ?r = slides" "runHost ?r = h"
    using assms(6) by (simp_all add: runOf_def)
  have st: "outcome ?st = None" "recorderStops (effects ?st) = 1"
    using runExport_completes [OF r(1)] r(2,3) by simp_all
  have fin: "runExport ?r (replicate (totalFrames h slides) Timer @ [StopEvent])
      = resolve rc ?st"
    by (simp add: runExport_def runOf_def)
  have "\<exists>blob. outcome (resolve rc ?st) = Some (Inr blob)"
    using st(1) by (simp add: resolve_def)
  moreover have "RecorderStop \<in> set (effects (resolve rc ?st))"
    using st(2) recorderStops_pos [of "effects ?st"] by simp
  ultimately show ?thesis
    unfolding export_run [OF assms(1-5)] fin by auto
qed

subsection \<open>The type of the blob\<close>

lemma advance_outcome:
  "outcome (advance r st) = outcome st \<or> (\<exists>e. outcome (advance r st) = Some (Inl e))"
proof (induction r st rule: advance.induct)
  case (1 r st)
  show ?case
  proof (cases "index st < length (runSlides r)")
    case inside: True
    show ?thesis
    proof (cases "frame st < frameCount (runHost r) (runSlides r ! index st)")
      case True
      then have "advance r st = frameBody r st" using inside by (simp add: advance.simps [of r st])
      then show ?thesis
        by (auto simp: frameBody_def Let_def reject_def split: option.splits)
    next
      case False
      then have "advance r st = advance r (st\<lparr>index := index st + 1, frame := 0\<rparr>)"
        using inside by (simp add: advance.simps [of r st])
      then show ?thesis using "1.IH" [OF inside False] by simp
    qed
  next
    case False
    then show ?thesis by (simp add: advance.simps [of r st])
  qed
qed

lemma step_outcome:
  assumes "outcome (step r st ev) = Some (Inr b)"
  shows "outcome st = Some (Inr b)
    \<or> b = \<lparr>parts = chunks st,
          blobType = (if mimeType (runRecorder r) \<noteq> [] then mimeType (runRecorder r)
                      else ''video/webm'')\<rparr>"
proof (cases ev)
  case Timer
  then show ?thesis using assms advance_outcome [of r st] by (auto split: if_splits)
next
  case (ErrorEvent x)
  then show ?thesis using assms by (auto simp: reject_def split: option.splits if_splits)
next
  case StopEvent
  then show ?thesis using assms by (auto simp: resolve_def split: if_splits)
next
  case (DataAvailable d)
  then show ?thesis using assms by (auto split: option.splits if_splits)
qed

lemma foldl_step_blobType:
  assumes "outcome (foldl (step r) st evs) = Some (Inr b)"
    "\<And>b. outcome st = Some (Inr b) \<Longrightarrow> blobType b = t"
    "t = (if mimeType (runRecorder r) \<noteq> [] then mimeType (runRecorder r) else ''video/webm'')"
  shows "blobType b = t"
  using assms
proof (induction evs arbitrary: st)
  case Nil
  then show ?case by simp
next
  case (Cons ev evs)
  have "blobType b' = t" if "outcome (step r st ev) = Some (Inr b')" for b'
    using step_outcome [OF that] Cons.prems(2,3) by auto
  then show ?case using Cons.IH [of "step r st ev"] Cons.prems(1,3) by simp
qed

lemma startExport_outcome: "\<not> (\<exists>b. outcome (startExport r) = Some (Inr b))"
  using advance_outcome [of r "\<lparr>index = 0, frame = 0, capturedFrames = 0, loop = Sleeping,
    chunks = [], outcome = None, effects = [RecorderStart]\<rparr>"]
  by (auto simp: startExport_def)

lemma runExport_blobType:
  assumes "outcome (runExport r evs) = Some (Inr b)"
  shows "blobType b
    = (if mimeType (runRecorder r) \<noteq> [] then mimeType (runRecorder r) else ''video/webm'')"
proof -
  have run: "outcome (foldl (step r) (startExport r) evs) = Some (Inr b)"
    using assms by (simp add: runExport_def)
  have start: "blobType b'
      = (if mimeType (runRecorder r) \<noteq> [] then mimeType (runRecorder r) else ''video/webm'')"
    if "outcome (startExport r) = Some (Inr b')" for b'
    using that startExport_outcome [of r] by blast
  show ?thesis by (rule foldl_step_blobType [OF run start refl])
qed

text \<open>
  C10. The blob of a successful export has the type that the run's recorder reports,
  and \<open>video/webm\<close> when the recorder reports the empty string; its type is never the
  empty string.
\<close>

theorem export_blob_type:
  assumes "exportSlidesToVideo h slides cb evs = (es, Some (Inr blob))"
  shows "\<exists>pre rc. createRecorder h = (pre, Inr rc)
     \<and> blobType blob = (if mimeType rc = [] then ''video/webm'' else mimeType rc)
     \<and> blobType blob \<noteq> []"
proof -
  from export_cases [OF assms]
  obtain pre rc where c: "createRecorder h = (pre, Inr rc)"
    and out: "Some (Inr blob) = outcome (runExport (runOf h rc slides cb) evs)"
    by auto
  have "blobType blob = (if mimeType rc \<noteq> [] then mimeType rc else ''video/webm'')"
    using runExport_blobType [OF out [symmetric]] by (simp add: runOf_def)
  then show ?thesis using c by auto
qed

lemma totalFrames_shortSlide: "totalFrames plainBrowser [shortSlide] = 3"
  by (simp add: totalFrames_def frameCount_def shortSlide_def defaultSlide_def FPS_def
      plainBrowser_def browser_def)

lemma createRecorder_plainBrowser:
  "createRecorder plainBrowser
   = ([IsTypeSupported ''video/webm;codecs=vp9'', IsTypeSupported ''video/webm;codecs=vp8'',
       IsTypeSupported ''video/webm'', NewMediaRecorder None],
      Inr \<lparr>mimeType = []\<rparr>)"
  by (simp add: createRecorder_def mimeCandidates_def plainBrowser_def browser_def)

theorem export_blob_type_witness:
  "exportSlidesToVideo browser [shortSlide] (Some quiet) [Timer, Timer, Timer, StopEvent]
     = (fst (exportSlidesToVideo browser [shortSlide] (Some quiet) [Timer, Timer, Timer, StopEvent]),
        Some (Inr \<lparr>parts = [], blobType = ''video/webm;codecs=vp9''\<rparr>))
   \<and> (\<exists>pre rc. createRecorder browser = (pre, Inr rc)
        \<and> mimeType rc = ''video/webm;codecs=vp9''
        \<and> blobType \<lparr>parts = [], blobType = ''video/webm;codecs=vp9''\<rparr>
            = (if mimeType rc = [] then ''video/webm'' else mimeType rc))
   \<and> (\<exists>es blob. exportSlidesToVideo plainBrowser [shortSlide] None [Timer, Timer, Timer, StopEvent]
          = (es, Some (Inr blob))
        \<and> blobType blob = ''video/webm'')"
proof -
  let ?e = "exportSlidesToVideo browser [shortSlide] (Some quiet) [Timer, Timer, Timer, StopEvent]"
  let ?b = "\<lparr>parts = [], blobType = ''video/webm;codecs=vp9''\<rparr>"
  have e: "?e = (fst ?e, Some (Inr ?b))" by (simp add: sample_export)
  from export_blob_type [OF e]
  obtain pre rc where rc: "createRecorder browser = (pre, Inr rc)"
    "blobType ?b = (if mimeType rc = [] then ''video/webm'' else mimeType rc)"
    by blast
  then have named: "mimeType rc = ''video/webm;codecs=vp9''"
    by (simp add: createRecorder_browser split: if_splits)
  have plain: "hasWindow plainBrowser" "hasMediaRecorder plainBrowser" "hasContext2d plainBrowser"
    by (simp_all add: plainBrowser_def browser_def)
  have "replicate (totalFrames plainBrowser [shortSlide]) Timer @ [StopEvent] = [Timer, Timer, Timer, StopEvent]"
    by (simp add: totalFrames_shortSlide numeral_3_eq_3)
  with export_completes [OF plain(1,2) _ plain(3) createRecorder_plainBrowser, of "[shortSlide]" None]
  obtain es blob where
    run: "exportSlidesToVideo plainBrowser [shortSlide] None [Timer, Timer, Timer, StopEvent]
      = (es, Some (Inr blob))"
    by (auto simp: neverThrows_def)
  from export_blob_type [OF run] have "blobType blob = ''video/webm''"
    by (simp add: createRecorder_plainBrowser)
  with run rc(1) named rc(2) e show ?thesis by blast
qed

end
